theory Spec2Isabelle
  imports Main
begin

section \<open>The Go string functions the route table calls\<close>

text \<open>
  Go strings are byte sequences; \<open>string\<close> is a list of 8-bit characters, and
  \<open>len\<close> is \<open>length\<close>. The source calls \<open>strings.Split\<close>, \<open>strings.Join\<close> and
  \<open>strings.LastIndex\<close> with the one-byte separator \<open>"/"\<close> only, so the separator is a
  character here.
\<close>

text \<open>\<open>strings.Split(s, sep)\<close>: the pieces of \<open>s\<close> between the separators; never empty,
  \<open>Split("", "/")\<close> is the one-element slice holding the empty string.\<close>

fun Split :: "string \<Rightarrow> char \<Rightarrow> string list" where
  "Split [] sep = [[]]"
| "Split (c # cs) sep =
     (if c = sep then [] # Split cs sep
      else (c # hd (Split cs sep)) # tl (Split cs sep))"

text \<open>\<open>strings.Join(elems, sep)\<close>; a nil slice joins to the empty string.\<close>

fun Join :: "string list \<Rightarrow> char \<Rightarrow> string" where
  "Join [] sep = []"
| "Join [x] sep = x"
| "Join (x # y # ys) sep = x @ sep # Join (y # ys) sep"

definition HasPrefix :: "string \<Rightarrow> string \<Rightarrow> bool" where
  "HasPrefix s p = (take (length p) s = p)"

definition TrimPrefix :: "string \<Rightarrow> string \<Rightarrow> string" where
  "TrimPrefix s p = (if HasPrefix s p then drop (length p) s else s)"

text \<open>\<open>strings.LastIndex(s, sep)\<close>: the index of the last separator, or \<open>-1\<close>.\<close>

fun LastIndex :: "string \<Rightarrow> char \<Rightarrow> int" where
  "LastIndex [] sep = - 1"
| "LastIndex (c # cs) sep =
     (if 0 \<le> LastIndex cs sep then LastIndex cs sep + 1
      else if c = sep then 0 else - 1)"

section \<open>The route table\<close>

record param =
  name :: string
  fixed :: bool

text \<open>The field \<open>function\<close> of the source's \<open>Route\<close> is \<open>function_h\<close> here; the handler
  is opaque to the table, so its type is a parameter.\<close>

record 'h Route =
  prefix :: string
  partNames :: "param list"
  function_h :: 'h

record 'h Routes =
  roots :: "string \<rightharpoonup> 'h Route list"

definition NewRoutes :: "'h Routes" where
  "NewRoutes = \<lparr>roots = Map.empty\<rparr>"

subsection \<open>Add\<close>

text \<open>One iteration of the loop over the components of the pattern; the loop state is
  \<open>(rootParts, varParts, paramsFound)\<close>.\<close>

definition Add_step ::
  "string list \<times> param list \<times> bool \<Rightarrow> string \<Rightarrow> string list \<times> param list \<times> bool" where
  "Add_step st p =
     (case st of (rootParts, varParts, paramsFound) \<Rightarrow>
        (let paramsFound' = (if HasPrefix p '':'' then True else paramsFound) in
         if paramsFound' then
           (if HasPrefix p '':''
            then (rootParts, varParts @ [\<lparr>name = TrimPrefix p '':'', fixed = False\<rparr>], paramsFound')
            else (rootParts, varParts @ [\<lparr>name = p, fixed = True\<rparr>], paramsFound'))
         else (rootParts @ [p], varParts, paramsFound')))"

definition Add :: "'h Routes \<Rightarrow> string \<Rightarrow> 'h \<Rightarrow> 'h Routes" where
  "Add r path f =
     (case foldl Add_step ([], [], False) (Split path CHR ''/'') of
        (rootParts, varParts, paramsFound) \<Rightarrow>
          (let root = Join rootParts CHR ''/'' in
           r\<lparr>roots := (roots r)(root \<mapsto>
                (case roots r root of None \<Rightarrow> [] | Some rs \<Rightarrow> rs)
                  @ [\<lparr>prefix = root, partNames = varParts, function_h = f\<rparr>])\<rparr>))"

subsection \<open>matchRoutes and cleanArray\<close>

fun cleanArray :: "string list \<Rightarrow> string list" where
  "cleanArray [] = []"
| "cleanArray (s # a) = (if s \<noteq> [] then s # cleanArray a else cleanArray a)"

text \<open>A Go run-time panic is a value: an index outside a slice, a nil pointer followed.\<close>

datatype error = IndexOutOfRange | NilDereference

text \<open>The three results of \<open>Get\<close> and \<open>matchRoutes\<close>: the handler (\<open>None\<close> is \<open>nil\<close>), the
  parameter map (\<open>None\<close> is the nil map) and the found flag.\<close>

type_synonym 'h result = "'h option \<times> (string \<rightharpoonup> string) option \<times> bool"

text \<open>The inner loop of \<open>matchRoutes\<close> over \<open>r.partNames\<close>, from index \<open>i\<close> on, with the
  map \<open>paramNames\<close> built so far. It reads \<open>params[i]\<close>, the list before cleaning, and
  panics where \<open>i\<close> is outside it. \<open>Inr None\<close> is \<open>continue outer\<close>.\<close>

fun match_parts ::
  "string list \<Rightarrow> nat \<Rightarrow> param list \<Rightarrow> (string \<rightharpoonup> string) \<Rightarrow> error + (string \<rightharpoonup> string) option" where
  "match_parts params i [] paramNames = Inr (Some paramNames)"
| "match_parts params i (p # ps) paramNames =
     (if length params \<le> i then Inl IndexOutOfRange
      else if fixed p then
        (if params ! i \<noteq> name p then Inr None
         else match_parts params (i + 1) ps paramNames)
      else match_parts params (i + 1) ps (paramNames(name p \<mapsto> params ! i)))"

fun matchRoutes :: "string \<Rightarrow> 'h Route list \<Rightarrow> error + 'h result" where
  "matchRoutes path [] = Inr (None, None, False)"
| "matchRoutes path (r # routes) =
     (let params = Split (TrimPrefix (TrimPrefix path (prefix r)) ''/'') CHR ''/'';
          valid = cleanArray params
      in if length valid = length (partNames r) then
           (case match_parts params 0 (partNames r) Map.empty of
              Inl e \<Rightarrow> Inl e
            | Inr None \<Rightarrow> matchRoutes path routes
            | Inr (Some paramNames) \<Rightarrow> Inr (Some (function_h r), Some paramNames, True))
         else matchRoutes path routes)"

subsection \<open>Get\<close>

text \<open>The loop \<open>for { ... }\<close> of \<open>Get\<close> has no bound of its own: the model is a partial
  function, and \<open>None\<close> is the loop that never returns.\<close>

partial_function (option) Get_loop ::
  "'h Routes \<Rightarrow> string \<Rightarrow> string \<Rightarrow> (error + 'h result) option" where
  "Get_loop r path remaining =
     (case roots r remaining of
        Some routes \<Rightarrow> Some (matchRoutes path routes)
      | None \<Rightarrow>
          if length remaining < 2 then Some (Inr (None, None, False))
          else if LastIndex remaining CHR ''/'' < 0 then Some (Inr (None, None, False))
          else if 0 < LastIndex remaining CHR ''/''
               then Get_loop r path (take (nat (LastIndex remaining CHR ''/'')) remaining)
               else Get_loop r path ''/'')"

definition Get :: "'h Routes \<Rightarrow> string \<Rightarrow> (error + 'h result) option" where
  "Get r path = Get_loop r path path"

section \<open>Facts about the string functions\<close>

lemma Split_not_Nil: "Split s sep \<noteq> []"
  by (induction s) auto

lemma Join_Cons: "ys \<noteq> [] \<Longrightarrow> Join (x # ys) sep = x @ sep # Join ys sep"
  by (cases ys) auto

lemma Join_Split: "Join (Split s sep) sep = s"
proof (induction s)
  case Nil
  show ?case by simp
next
  case (Cons c cs)
  obtain x xs where sp: "Split cs sep = x # xs"
    using Split_not_Nil [of cs sep] by (cases "Split cs sep") auto
  show ?case
  proof (cases "c = sep")
    case True
    then show ?thesis using Cons sp by (simp add: Join_Cons)
  next
    case False
    have "Join ((c # x) # xs) sep = c # Join (x # xs) sep"
      by (cases xs) auto
    then show ?thesis using False Cons sp by simp
  qed
qed

lemma LastIndex_lower: "- 1 \<le> LastIndex s sep"
  by (induction s) auto

lemma LastIndex_upper: "LastIndex s sep < int (length s)"
  by (induction s) auto

lemma LastIndex_nth: "0 \<le> LastIndex s sep \<Longrightarrow> s ! nat (LastIndex s sep) = sep"
proof (induction s)
  case Nil
  then show ?case by simp
next
  case (Cons c cs)
  show ?case
  proof (cases "0 \<le> LastIndex cs sep")
    case True
    then have "nat (LastIndex cs sep + 1) = Suc (nat (LastIndex cs sep))" by simp
    then show ?thesis using True Cons.IH by simp
  next
    case False
    then show ?thesis using Cons.prems by (simp split: if_splits)
  qed
qed

lemma LastIndex_snoc: "LastIndex (s @ [sep]) sep = int (length s)"
  by (induction s) auto

section \<open>The fallback search of Get\<close>

text \<open>What one iteration of the loop of \<open>Get\<close> does to \<open>remaining\<close> once it is not a
  key of the table: the next value of \<open>remaining\<close>, or \<open>None\<close> where the loop returns
  not-found.\<close>

definition shorten :: "string \<Rightarrow> string option" where
  "shorten remaining =
     (if length remaining < 2 then None
      else if LastIndex remaining CHR ''/'' < 0 then None
      else if 0 < LastIndex remaining CHR ''/''
           then Some (take (nat (LastIndex remaining CHR ''/'')) remaining)
           else Some ''/'')"

lemma shorten_length: "shorten remaining = Some r \<Longrightarrow> length r < length remaining"
  using LastIndex_upper [of remaining "CHR ''/''"]
  by (auto simp: shorten_def split: if_splits)

lemma shorten_not_Nil: "shorten remaining = Some r \<Longrightarrow> r \<noteq> []"
  by (auto simp: shorten_def split: if_splits)

lemma shorten_take: "shorten remaining = Some r \<Longrightarrow> r = take (length r) remaining"
proof -
  assume a: "shorten remaining = Some r"
  show ?thesis
  proof (cases "0 < LastIndex remaining CHR ''/''")
    case True
    then show ?thesis using a LastIndex_upper [of remaining "CHR ''/''"]
      by (auto simp: shorten_def split: if_splits)
  next
    case False
    then have r: "r = ''/''" and z: "LastIndex remaining CHR ''/'' = 0" and l: "2 \<le> length remaining"
      using a by (auto simp: shorten_def split: if_splits)
    have "remaining ! nat (LastIndex remaining CHR ''/'') = CHR ''/''"
      using LastIndex_nth [of remaining "CHR ''/''"] z by simp
    then have "remaining ! 0 = CHR ''/''" using z by simp
    then show ?thesis using r l by (cases remaining) auto
  qed
qed

lemma Get_loop_unfold:
  "Get_loop r path remaining =
     (case roots r remaining of
        Some routes \<Rightarrow> Some (matchRoutes path routes)
      | None \<Rightarrow>
          (case shorten remaining of
             None \<Rightarrow> Some (Inr (None, None, False))
           | Some remaining' \<Rightarrow> Get_loop r path remaining'))"
  by (subst Get_loop.simps) (simp add: shorten_def split: option.splits)

text \<open>The successive values of \<open>remaining\<close> the loop would go through in a table with
  no key at all: the prefixes of the path that the search tries, longest first.\<close>

function candidates :: "string \<Rightarrow> string list" where
  "candidates remaining =
     remaining # (case shorten remaining of None \<Rightarrow> [] | Some r \<Rightarrow> candidates r)"
  by pat_completeness auto
termination
  by (relation "measure length") (auto simp: shorten_length)

declare candidates.simps [simp del]

lemma Get_loop_candidates:
  "Get_loop r path remaining =
     (case find (\<lambda>k. roots r k \<noteq> None) (candidates remaining) of
        None \<Rightarrow> Some (Inr (None, None, False))
      | Some k \<Rightarrow> Some (matchRoutes path (the (roots r k))))"
proof (induction remaining rule: candidates.induct)
  case (1 remaining)
  show ?case
  proof (cases "roots r remaining")
    case (Some routes)
    then show ?thesis
      by (subst Get_loop_unfold, subst candidates.simps) simp
  next
    case None
    show ?thesis
    proof (cases "shorten remaining")
      case n: None
      then show ?thesis using None
        by (subst Get_loop_unfold, subst candidates.simps) simp
    next
      case (Some r')
      then show ?thesis using None "1.IH" [OF Some]
        by (subst Get_loop_unfold, subst candidates.simps) simp
    qed
  qed
qed

lemma Get_loop_returns: "\<exists>res. Get_loop r path remaining = Some res"
  by (simp add: Get_loop_candidates split: option.splits)

section \<open>matchRoutes stays inside the split list\<close>

lemma cleanArray_filter: "cleanArray a = filter (\<lambda>s. s \<noteq> []) a"
  by (induction a) auto

lemma cleanArray_length: "length (cleanArray a) \<le> length a"
  by (simp add: cleanArray_filter)

lemma match_parts_in_range:
  "i + length ps \<le> length params \<Longrightarrow> \<exists>m. match_parts params i ps paramNames = Inr m"
  by (induction ps arbitrary: i paramNames) auto

lemma matchRoutes_no_panic: "\<exists>res. matchRoutes path routes = Inr res"
proof (induction routes)
  case Nil
  show ?case by (simp del: ex_simps) blast
next
  case (Cons r routes)
  let ?params = "Split (TrimPrefix (TrimPrefix path (prefix r)) ''/'') CHR ''/''"
  show ?case
  proof (cases "length (cleanArray ?params) = length (partNames r)")
    case False
    then show ?thesis using Cons by (simp add: Let_def)
  next
    case True
    then have "0 + length (partNames r) \<le> length ?params"
      using cleanArray_length [of ?params] by simp
    from match_parts_in_range [OF this, of Map.empty]
    obtain m where "match_parts ?params 0 (partNames r) Map.empty = Inr m" by blast
    then show ?thesis using True Cons by (cases m) (auto simp: Let_def)
  qed
qed

section \<open>Evaluation and search lemmas\<close>

lemma candidates_length: "length (candidates remaining) \<le> Suc (length remaining)"
proof (induction remaining rule: candidates.induct)
  case (1 remaining)
  show ?case
  proof (cases "shorten remaining")
    case None
    then show ?thesis by (subst candidates.simps) simp
  next
    case (Some r')
    then show ?thesis using "1.IH" [OF Some] shorten_length [OF Some]
      by (subst candidates.simps) simp
  qed
qed

lemma find_first_key:
  "\<forall>k' \<in> set ks. roots r k' = None \<Longrightarrow> roots r k = Some routes \<Longrightarrow>
     find (\<lambda>k. roots r k \<noteq> None) (ks @ k # ks') = Some k"
  by (induction ks) auto

lemmas ev = Add_def Add_step_def HasPrefix_def TrimPrefix_def NewRoutes_def Get_def
  Get_loop.simps Let_def

section \<open>Registration: what Add stores\<close>

text \<open>
  The decomposition of a pattern in the words of the specification (sections 3 and 4.1):
  the static prefix is the slash-joined run of components before the first component that
  starts with \<open>:\<close>, and every component from there on is a segment, a parameter if it
  starts with \<open>:\<close> and a literal otherwise. \<open>Add_eq\<close> below shows that the loop of
  \<open>Add\<close> computes exactly this.
\<close>

definition mk_part :: "string \<Rightarrow> param" where
  "mk_part p = (if HasPrefix p '':'' then \<lparr>name = TrimPrefix p '':'', fixed = False\<rparr>
                else \<lparr>name = p, fixed = True\<rparr>)"

definition staticPrefix :: "string \<Rightarrow> string" where
  "staticPrefix pattern =
     Join (takeWhile (\<lambda>p. \<not> HasPrefix p '':'') (Split pattern CHR ''/'')) CHR ''/''"

definition segments :: "string \<Rightarrow> param list" where
  "segments pattern =
     map mk_part (dropWhile (\<lambda>p. \<not> HasPrefix p '':'') (Split pattern CHR ''/''))"

text \<open>A pattern with no parameter component.\<close>

definition param_free :: "string \<Rightarrow> bool" where
  "param_free pattern = list_all (\<lambda>p. \<not> HasPrefix p '':'') (Split pattern CHR ''/'')"

definition route_of :: "string \<times> 'h \<Rightarrow> 'h Route" where
  "route_of reg = \<lparr>prefix = staticPrefix (fst reg), partNames = segments (fst reg),
                   function_h = snd reg\<rparr>"

text \<open>The table after a list of registrations, in order, starting from \<open>NewRoutes\<close>.\<close>

definition register_all :: "(string \<times> 'h) list \<Rightarrow> 'h Routes" where
  "register_all regs = foldl (\<lambda>r reg. Add r (fst reg) (snd reg)) NewRoutes regs"

lemma Add_step_found: "Add_step (rp, vp, True) p = (rp, vp @ [mk_part p], True)"
  by (simp add: Add_step_def mk_part_def)

lemma Add_step_param:
  "HasPrefix p '':'' \<Longrightarrow> Add_step (rp, vp, b) p = (rp, vp @ [mk_part p], True)"
  by (simp add: Add_step_def mk_part_def)

lemma Add_step_root:
  "\<not> HasPrefix p '':'' \<Longrightarrow> Add_step (rp, vp, False) p = (rp @ [p], vp, False)"
  by (simp add: Add_step_def)

lemma foldl_Add_step_found:
  "foldl Add_step (rp, vp, True) ps = (rp, vp @ map mk_part ps, True)"
  by (induction ps arbitrary: vp) (simp_all add: Add_step_found)

lemma foldl_Add_step:
  "foldl Add_step (rp, vp, False) ps =
     (rp @ takeWhile (\<lambda>p. \<not> HasPrefix p '':'') ps,
      vp @ map mk_part (dropWhile (\<lambda>p. \<not> HasPrefix p '':'') ps),
      dropWhile (\<lambda>p. \<not> HasPrefix p '':'') ps \<noteq> [])"
proof (induction ps arbitrary: rp)
  case Nil
  show ?case by simp
next
  case (Cons p ps)
  show ?case
  proof (cases "HasPrefix p '':''")
    case True
    then show ?thesis
      by (simp add: Add_step_param foldl_Add_step_found)
  next
    case False
    then show ?thesis using Cons [of "rp @ [p]"] by (simp add: Add_step_root)
  qed
qed

lemma Add_eq:
  "Add r pattern f =
     r\<lparr>roots := (roots r)(staticPrefix pattern \<mapsto>
          (case roots r (staticPrefix pattern) of None \<Rightarrow> [] | Some rs \<Rightarrow> rs)
            @ [route_of (pattern, f)])\<rparr>"
  using foldl_Add_step [of "[]" "[]" "Split pattern CHR ''/''"]
  by (simp add: Add_def staticPrefix_def segments_def route_of_def Let_def)

lemma roots_Add:
  "roots (Add r pattern f) k =
     (if k = staticPrefix pattern
      then Some ((case roots r k of None \<Rightarrow> [] | Some rs \<Rightarrow> rs) @ [route_of (pattern, f)])
      else roots r k)"
  by (simp add: Add_eq)

lemma register_all_snoc:
  "register_all (regs @ [reg]) = Add (register_all regs) (fst reg) (snd reg)"
  by (simp add: register_all_def)

lemma roots_register_all:
  "roots (register_all regs) k =
     (case filter (\<lambda>reg. staticPrefix (fst reg) = k) regs of
        [] \<Rightarrow> None
      | x # xs \<Rightarrow> Some (map route_of (x # xs)))"
proof (induction regs rule: rev_induct)
  case Nil
  show ?case by (simp add: register_all_def NewRoutes_def)
next
  case (snoc reg regs)
  show ?case
    using snoc
    by (cases reg) (auto simp: register_all_snoc roots_Add split: list.splits)
qed

lemma param_free_staticPrefix: "param_free pattern \<Longrightarrow> staticPrefix pattern = pattern"
proof -
  assume "param_free pattern"
  then have "takeWhile (\<lambda>p. \<not> HasPrefix p '':'') (Split pattern CHR ''/'') = Split pattern CHR ''/''"
    by (simp add: param_free_def list_all_iff)
  then show ?thesis unfolding staticPrefix_def by (simp only: Join_Split)
qed

lemma segments_Nil_iff: "segments pattern = [] \<longleftrightarrow> param_free pattern"
  by (auto simp: segments_def param_free_def list_all_iff)

lemma route_of_simps [simp]:
  "prefix (route_of reg) = staticPrefix (fst reg)"
  "partNames (route_of reg) = segments (fst reg)"
  "function_h (route_of reg) = snd reg"
  by (simp_all add: route_of_def)

lemma matchRoutes_exact:
  "\<forall>r \<in> set rs. prefix r = k \<Longrightarrow>
     matchRoutes k rs =
       (case find (\<lambda>r. partNames r = []) rs of
          None \<Rightarrow> Inr (None, None, False)
        | Some r \<Rightarrow> Inr (Some (function_h r), Some Map.empty, True))"
proof (induction rs)
  case Nil
  show ?case by simp
next
  case (Cons r rs)
  then have p: "prefix r = k" by simp
  have s: "Split (TrimPrefix (TrimPrefix k k) ''/'') CHR ''/'' = [[]]"
    by (simp add: TrimPrefix_def HasPrefix_def)
  show ?case
  proof (cases "partNames r = []")
    case True
    then show ?thesis using p s by simp
  next
    case False
    then show ?thesis using p s Cons by simp
  qed
qed

lemma find_registered:
  "param_free k \<Longrightarrow>
     find (\<lambda>r. partNames r = []) (map route_of (filter (\<lambda>reg. staticPrefix (fst reg) = k) regs))
       = map_option (\<lambda>h. route_of (k, h)) (map_of regs k)"
proof (induction regs)
  case Nil
  show ?case by simp
next
  case (Cons reg regs)
  obtain p f where reg: "reg = (p, f)" by (cases reg)
  show ?case
  proof (cases "p = k")
    case True
    then show ?thesis
      using Cons reg by (simp add: param_free_staticPrefix segments_Nil_iff)
  next
    case False
    have "\<not> (staticPrefix p = k \<and> segments p = [])"
      using False param_free_staticPrefix [of p] by (auto simp: segments_Nil_iff)
    then show ?thesis using Cons reg False by auto
  qed
qed

lemma matchRoutes_registered:
  assumes "param_free k"
  shows "matchRoutes k (map route_of (filter (\<lambda>reg. staticPrefix (fst reg) = k) regs)) =
     (case map_of regs k of
        None \<Rightarrow> Inr (None, None, False)
      | Some h \<Rightarrow> Inr (Some h, Some Map.empty, True))"
proof -
  have "\<forall>r \<in> set (map route_of (filter (\<lambda>reg. staticPrefix (fst reg) = k) regs)). prefix r = k"
    by auto
  from matchRoutes_exact [OF this] show ?thesis
    by (simp add: find_registered [OF assms] split: option.splits)
qed

lemma map_of_registered_key:
  "param_free k \<Longrightarrow> filter (\<lambda>reg. staticPrefix (fst reg) = k) regs = [] \<Longrightarrow> map_of regs k = None"
proof -
  assume pf: "param_free k" and e: "filter (\<lambda>reg. staticPrefix (fst reg) = k) regs = []"
  have "k \<notin> fst ` set regs"
  proof
    assume "k \<in> fst ` set regs"
    then obtain reg where "reg \<in> set regs" "fst reg = k" by auto
    then have "reg \<in> set (filter (\<lambda>reg. staticPrefix (fst reg) = k) regs)"
      using param_free_staticPrefix [OF pf] by simp
    then show False using e by simp
  qed
  then show ?thesis by (simp add: map_of_eq_None_iff)
qed

lemma Get_registered_found:
  assumes "param_free k" and "map_of regs k = Some h"
  shows "Get (register_all regs) k = Some (Inr (Some h, Some Map.empty, True))"
proof -
  let ?rs = "filter (\<lambda>reg. staticPrefix (fst reg) = k) regs"
  have "?rs \<noteq> []"
    using map_of_registered_key [OF assms(1), of regs] assms(2) by auto
  then have "roots (register_all regs) k = Some (map route_of ?rs)"
    by (simp add: roots_register_all split: list.splits)
  then have "Get (register_all regs) k = Some (matchRoutes k (map route_of ?rs))"
    by (simp add: Get_def Get_loop_unfold)
  then show ?thesis using matchRoutes_registered [OF assms(1), of regs] assms(2) by simp
qed

lemma Get_short_key:
  assumes "param_free k" and "shorten k = None"
  shows "Get (register_all regs) k =
     (case map_of regs k of
        None \<Rightarrow> Some (Inr (None, None, False))
      | Some h \<Rightarrow> Some (Inr (Some h, Some Map.empty, True)))"
proof (cases "map_of regs k")
  case (Some h)
  then show ?thesis using Get_registered_found [OF assms(1) Some] by simp
next
  case None
  let ?rs = "filter (\<lambda>reg. staticPrefix (fst reg) = k) regs"
  show ?thesis
  proof (cases "?rs = []")
    case True
    then have "roots (register_all regs) k = None"
      by (simp add: roots_register_all)
    then show ?thesis using None assms(2) by (simp add: Get_def Get_loop_unfold)
  next
    case False
    then have "roots (register_all regs) k = Some (map route_of ?rs)"
      by (simp add: roots_register_all split: list.splits)
    then have "Get (register_all regs) k = Some (matchRoutes k (map route_of ?rs))"
      by (simp add: Get_def Get_loop_unfold)
    then show ?thesis using matchRoutes_registered [OF assms(1), of regs] None by simp
  qed
qed

lemma param_free_empty: "param_free []"
  by (simp add: param_free_def HasPrefix_def)

lemma param_free_slash: "param_free ''/''"
  by (simp add: param_free_def HasPrefix_def)

lemma shorten_short: "length k < 2 \<Longrightarrow> shorten k = None"
  by (simp add: shorten_def)

lemma candidates_head: "remaining \<in> set (candidates remaining)"
  by (subst candidates.simps) simp

lemma candidates_cases:
  "k \<in> set (candidates remaining) \<Longrightarrow>
     k = remaining \<or> (\<exists>r'. shorten remaining = Some r' \<and> k \<in> set (candidates r'))"
  by (subst (asm) candidates.simps) (auto split: option.splits)

lemma candidates_take:
  "k \<in> set (candidates remaining) \<Longrightarrow> \<exists>n. k = take n remaining"
proof (induction remaining rule: candidates.induct)
  case (1 remaining)
  show ?case
  proof (cases "k = remaining")
    case True
    then have "k = take (length remaining) remaining" by simp
    then show ?thesis by (rule exI)
  next
    case False
    then obtain r' where s: "shorten remaining = Some r'" and k: "k \<in> set (candidates r')"
      using candidates_cases [OF "1.prems"] by blast
    obtain m where m: "k = take m r'" using "1.IH" [OF s k] by blast
    obtain n where n: "r' = take n remaining" using shorten_take [OF s] by blast
    have "k = take (min m n) remaining" using m n by simp
    then show ?thesis by (rule exI)
  qed
qed

lemma candidates_prefix:
  "k \<in> set (candidates remaining) \<Longrightarrow> HasPrefix remaining k"
proof -
  assume "k \<in> set (candidates remaining)"
  then obtain n where "k = take n remaining" using candidates_take by blast
  then show ?thesis by (simp add: HasPrefix_def min_def)
qed

lemma candidates_not_Nil: "remaining \<noteq> [] \<Longrightarrow> [] \<notin> set (candidates remaining)"
proof (induction remaining rule: candidates.induct)
  case (1 remaining)
  show ?case
  proof (cases "shorten remaining")
    case None
    then show ?thesis using "1.prems" by (subst candidates.simps) simp
  next
    case (Some r')
    then show ?thesis
      using "1.prems" "1.IH" [OF Some shorten_not_Nil [OF Some]]
      by (subst candidates.simps) simp
  qed
qed

lemma shorten_snoc: "s \<noteq> [] \<Longrightarrow> shorten (s @ ''/'') = Some s"
proof -
  assume "s \<noteq> []"
  then have "0 < length s" by simp
  then show ?thesis by (simp add: shorten_def LastIndex_snoc)
qed

lemma candidates_slashes:
  "p \<noteq> [] \<Longrightarrow> p \<in> set (candidates (p @ replicate n CHR ''/''))"
proof (induction n)
  case 0
  show ?case by (simp add: candidates_head)
next
  case (Suc n)
  have e: "p @ replicate (Suc n) CHR ''/'' = (p @ replicate n CHR ''/'') @ ''/''"
    by (simp add: replicate_append_same)
  have "shorten ((p @ replicate n CHR ''/'') @ ''/'') = Some (p @ replicate n CHR ''/'')"
    using Suc.prems by (intro shorten_snoc) simp
  then show ?case using Suc unfolding e
    by (subst candidates.simps) simp
qed

lemma cleanArray_Split_Nil:
  "cleanArray (Split s CHR ''/'') = [] \<longleftrightarrow> set s \<subseteq> {CHR ''/''}"
  by (induction s) auto

lemma TrimPrefix_slash_set:
  "set (TrimPrefix s ''/'') \<subseteq> {CHR ''/''} \<longleftrightarrow> set s \<subseteq> {CHR ''/''}"
  by (cases s) (auto simp: TrimPrefix_def HasPrefix_def)

lemma matchRoutes_single:
  "matchRoutes path [\<lparr>prefix = p, partNames = [], function_h = h\<rparr>] =
     (if set (TrimPrefix path p) \<subseteq> {CHR ''/''}
      then Inr (Some h, Some Map.empty, True) else Inr (None, None, False))"
  using cleanArray_Split_Nil [of "TrimPrefix (TrimPrefix path p) ''/''"]
    TrimPrefix_slash_set [of "TrimPrefix path p"]
  by (simp add: Let_def)

lemma find_eq_key: "find (\<lambda>k. k = p) ks = (if p \<in> set ks then Some p else None)"
  by (induction ks) auto

lemma roots_register_single:
  "param_free p \<Longrightarrow>
     roots (register_all [(p, h)]) k =
       (if k = p then Some [\<lparr>prefix = p, partNames = [], function_h = h\<rparr>] else None)"
  using segments_Nil_iff [of p]
  by (auto simp: roots_register_all route_of_def param_free_staticPrefix)

lemma Get_register_single:
  assumes "param_free p"
  shows "Get (register_all [(p, h)]) path =
     (if p \<in> set (candidates path) \<and> set (TrimPrefix path p) \<subseteq> {CHR ''/''}
      then Some (Inr (Some h, Some Map.empty, True)) else Some (Inr (None, None, False)))"
proof -
  let ?t = "register_all [(p, h)]"
  have "(\<lambda>k. roots ?t k \<noteq> None) = (\<lambda>k. k = p)"
    by (simp add: roots_register_single [OF assms] fun_eq_iff)
  then have f: "find (\<lambda>k. roots ?t k \<noteq> None) (candidates path)
      = (if p \<in> set (candidates path) then Some p else None)"
    by (simp only: find_eq_key)
  have g: "Get ?t path =
     (case find (\<lambda>k. roots ?t k \<noteq> None) (candidates path) of
        None \<Rightarrow> Some (Inr (None, None, False))
      | Some k \<Rightarrow> Some (matchRoutes path (the (roots ?t k))))"
    unfolding Get_def by (rule Get_loop_candidates)
  show ?thesis unfolding g f
    by (simp add: roots_register_single [OF assms] matchRoutes_single del: matchRoutes.simps)
qed

lemma set_subset_replicate: "set xs \<subseteq> {c} \<Longrightarrow> xs = replicate (length xs) c"
  by (induction xs) auto

lemma reaches_iff:
  "(p \<in> set (candidates path) \<and> set (TrimPrefix path p) \<subseteq> {CHR ''/''}) \<longleftrightarrow>
   ((\<exists>n. path = p @ replicate n CHR ''/'') \<and> (p = [] \<longrightarrow> path = []))"
proof
  assume a: "p \<in> set (candidates path) \<and> set (TrimPrefix path p) \<subseteq> {CHR ''/''}"
  then have t: "HasPrefix path p" using candidates_prefix by blast
  then have "TrimPrefix path p = drop (length p) path"
    by (simp add: TrimPrefix_def)
  then have "set (drop (length p) path) \<subseteq> {CHR ''/''}" using a by simp
  then have "drop (length p) path = replicate (length (drop (length p) path)) CHR ''/''"
    by (rule set_subset_replicate)
  moreover have "path = take (length p) path @ drop (length p) path" by simp
  moreover have "take (length p) path = p" using t by (simp add: HasPrefix_def)
  ultimately have "path = p @ replicate (length (drop (length p) path)) CHR ''/''"
    by metis
  then have 1: "\<exists>n. path = p @ replicate n CHR ''/''" by (rule exI)
  have 2: "p = [] \<longrightarrow> path = []"
    using a candidates_not_Nil [of path] by auto
  show "(\<exists>n. path = p @ replicate n CHR ''/'') \<and> (p = [] \<longrightarrow> path = [])"
    using 1 2 by simp
next
  assume b: "(\<exists>n. path = p @ replicate n CHR ''/'') \<and> (p = [] \<longrightarrow> path = [])"
  then obtain n where n: "path = p @ replicate n CHR ''/''" by blast
  have 1: "p \<in> set (candidates path)"
  proof (cases "p = []")
    case True
    then show ?thesis using b candidates_head [of path] by simp
  next
    case False
    then show ?thesis unfolding n by (rule candidates_slashes)
  qed
  have "TrimPrefix path p = replicate n CHR ''/''"
    by (simp add: n TrimPrefix_def HasPrefix_def)
  then show "p \<in> set (candidates path) \<and> set (TrimPrefix path p) \<subseteq> {CHR ''/''}"
    using 1 by auto
qed

lemma Split_Cons_param:
  "\<exists>x xs. Split (CHR '':'' # cs) CHR ''/'' = (CHR '':'' # x) # xs"
  by simp

lemma staticPrefix_colon: "HasPrefix pattern '':'' \<Longrightarrow> staticPrefix pattern = []"
proof -
  assume "HasPrefix pattern '':''"
  then obtain cs where p: "pattern = CHR '':'' # cs"
    by (cases pattern) (auto simp: HasPrefix_def)
  obtain x xs where "Split (CHR '':'' # cs) CHR ''/'' = (CHR '':'' # x) # xs"
    using Split_Cons_param by blast
  then show ?thesis by (simp add: p staticPrefix_def HasPrefix_def)
qed

lemma staticPrefix_slash_colon: "HasPrefix pattern ''/:'' \<Longrightarrow> staticPrefix pattern = []"
proof -
  assume "HasPrefix pattern ''/:''"
  then obtain cs where p: "pattern = CHR ''/'' # CHR '':'' # cs"
    by (cases pattern; cases "tl pattern") (auto simp: HasPrefix_def)
  obtain x xs where "Split (CHR '':'' # cs) CHR ''/'' = (CHR '':'' # x) # xs"
    using Split_Cons_param by blast
  then show ?thesis by (simp add: p staticPrefix_def HasPrefix_def)
qed

lemma segments_colon: "HasPrefix pattern '':'' \<Longrightarrow> segments pattern \<noteq> []"
proof -
  assume "HasPrefix pattern '':''"
  then obtain cs where p: "pattern = CHR '':'' # cs"
    by (cases pattern) (auto simp: HasPrefix_def)
  obtain x xs where "Split (CHR '':'' # cs) CHR ''/'' = (CHR '':'' # x) # xs"
    using Split_Cons_param by blast
  then show ?thesis by (simp add: p segments_def HasPrefix_def)
qed

lemma segments_slash_colon: "HasPrefix pattern ''/:'' \<Longrightarrow> segments pattern \<noteq> []"
proof -
  assume "HasPrefix pattern ''/:''"
  then obtain cs where p: "pattern = CHR ''/'' # CHR '':'' # cs"
    by (cases pattern; cases "tl pattern") (auto simp: HasPrefix_def)
  obtain x xs where "Split (CHR '':'' # cs) CHR ''/'' = (CHR '':'' # x) # xs"
    using Split_Cons_param by blast
  then show ?thesis by (simp add: p segments_def HasPrefix_def)
qed

lemma find_key_cong:
  "\<forall>k \<in> set ks. roots r k = roots r' k \<Longrightarrow>
     (case find (\<lambda>k. roots r k \<noteq> None) ks of
        None \<Rightarrow> Some (Inr (None, None, False))
      | Some k \<Rightarrow> Some (matchRoutes path (the (roots r k)))) =
     (case find (\<lambda>k. roots r' k \<noteq> None) ks of
        None \<Rightarrow> Some (Inr (None, None, False))
      | Some k \<Rightarrow> Some (matchRoutes path (the (roots r' k))))"
  by (induction ks) auto

lemma Get_cong:
  "\<forall>k \<in> set (candidates path). roots r k = roots r' k \<Longrightarrow> Get r path = Get r' path"
  unfolding Get_def Get_loop_candidates by (rule find_key_cong)

lemma Get_Add_empty_key:
  assumes "staticPrefix pattern = []" and "path \<noteq> []"
  shows "Get (Add r pattern f) path = Get r path"
proof (rule Get_cong)
  show "\<forall>k \<in> set (candidates path). roots (Add r pattern f) k = roots r k"
    using candidates_not_Nil [OF assms(2)] assms(1) by (auto simp: roots_Add)
qed

section \<open>The claims\<close>

text \<open>
  C7. For every table and every path the lookup terminates: the loop of \<open>Get\<close>, modelled
  with \<open>None\<close> for a run that never returns, always returns a value, and the values
  \<open>remaining\<close> can go through are at most one more than the length of the path.
\<close>

theorem Get_terminates:
  "(\<exists>res. Get r path = Some res) \<and> length (candidates path) \<le> Suc (length path)"
  by (simp add: Get_def Get_loop_returns candidates_length)

text \<open>
  C10. \<open>matchRoutes\<close> never reads outside the split list: the cleaned list is never
  longer than the list it was cleaned from, so under the length guard
  \<open>len(valid) == len(r.partNames)\<close> the inner loop never panics, \<open>matchRoutes\<close> never
  panics, and \<open>Get\<close> returns a proper result for every table and path.
\<close>

theorem matchRoutes_index_in_range:
  "length (cleanArray params) \<le> length params \<and>
   (length (cleanArray params) = length ps \<longrightarrow>
      (\<forall>e. match_parts params 0 ps paramNames \<noteq> Inl e)) \<and>
   (\<forall>e. matchRoutes path routes \<noteq> Inl e) \<and>
   (\<exists>res. Get r path = Some (Inr res))"
proof -
  have a: "length (cleanArray params) \<le> length params"
    by (rule cleanArray_length)
  have b: "\<forall>e. match_parts params 0 ps paramNames \<noteq> Inl e"
    if "length (cleanArray params) = length ps"
  proof -
    have "0 + length ps \<le> length params" using a that by simp
    from match_parts_in_range [OF this, of paramNames] show ?thesis by auto
  qed
  have c: "\<forall>e. matchRoutes path routes \<noteq> Inl e" for routes :: "'a Route list"
    using matchRoutes_no_panic [of path routes] by auto
  have d: "\<exists>res. Get r path = Some (Inr res)"
  proof (cases "find (\<lambda>k. roots r k \<noteq> None) (candidates path)")
    case None
    then have "Get r path = Some (Inr (None, None, False))"
      by (simp add: Get_def Get_loop_candidates)
    then show ?thesis by (rule exI)
  next
    case (Some k)
    obtain res where "matchRoutes path (the (roots r k)) = Inr res"
      using matchRoutes_no_panic by blast
    then have "Get r path = Some (Inr res)"
      using Some by (simp add: Get_def Get_loop_candidates)
    then show ?thesis by (rule exI)
  qed
  show ?thesis using a b c d by blast
qed

theorem matchRoutes_index_in_range_witness:
  "length (cleanArray ['''', ''42'']) = length [\<lparr>name = ''id'', fixed = False\<rparr>] \<and>
   length (cleanArray ['''', ''42'']) \<le> length ['''', ''42''] \<and>
   match_parts ['''', ''42''] 0 [\<lparr>name = ''id'', fixed = False\<rparr>] Map.empty
     = Inr (Some [''id'' \<mapsto> '''']) \<and>
   (\<forall>e. match_parts ['''', ''42''] 0 [\<lparr>name = ''id'', fixed = False\<rparr>] Map.empty \<noteq> Inl e) \<and>
   (\<forall>e. matchRoutes ''/users//42''
          [\<lparr>prefix = ''/users'', partNames = [\<lparr>name = ''id'', fixed = False\<rparr>], function_h = (0::nat)\<rparr>]
        \<noteq> Inl e) \<and>
   (\<exists>res. Get (Add NewRoutes ''/users/:id'' (0::nat)) ''/users//42'' = Some (Inr res))"
  using matchRoutes_index_in_range
    [of "['''', ''42'']" "[\<lparr>name = ''id'', fixed = False\<rparr>]" Map.empty "''/users//42''"
        "[\<lparr>prefix = ''/users'', partNames = [\<lparr>name = ''id'', fixed = False\<rparr>], function_h = (0::nat)\<rparr>]"
        "Add NewRoutes ''/users/:id'' (0::nat)"]
  by simp

text \<open>
  C6. After registering \<open>/users/:id/edit\<close> in a new table, \<open>Get("/users/7/edit")\<close> is found
  (with \<open>id\<close> bound to \<open>7\<close>) and \<open>Get("/users/7/delete")\<close> is not found: the literal
  segment rejects the entry.
\<close>

theorem users_id_edit:
  "Get (Add NewRoutes ''/users/:id/edit'' h) ''/users/7/edit''
     = Some (Inr (Some h, Some [''id'' \<mapsto> ''7''], True)) \<and>
   Get (Add NewRoutes ''/users/:id/edit'' h) ''/users/7/delete''
     = Some (Inr (None, None, False))"
  by (simp add: ev)

text \<open>
  C2. Once the fallback search reaches a value \<open>k\<close> of \<open>remaining\<close> that is a key of the
  table (no earlier candidate being one), \<open>Get\<close> returns what \<open>matchRoutes\<close> returns on
  the entry list of \<open>k\<close> alone; where no entry of that list matches, \<open>Get\<close> is
  not-found, whatever the table holds under the shorter candidates.
\<close>

theorem Get_first_key_decides:
  assumes "candidates path = ks @ k # ks'"
    and "\<forall>k' \<in> set ks. roots r k' = None"
    and "roots r k = Some routes"
  shows "Get r path = Some (matchRoutes path routes) \<and>
         (matchRoutes path routes = Inr (None, None, False) \<longrightarrow>
            Get r path = Some (Inr (None, None, False)))"
proof -
  have "find (\<lambda>k. roots r k \<noteq> None) (ks @ k # ks') = Some k"
    by (rule find_first_key [OF assms(2,3)])
  then have "find (\<lambda>k. roots r k \<noteq> None) (candidates path) = Some k"
    by (simp only: assms(1))
  then have "Get r path = Some (matchRoutes path routes)"
    using assms(3) by (simp add: Get_def Get_loop_candidates)
  then show ?thesis by simp
qed

theorem Get_first_key_decides_witness:
  "candidates ''/a/b/'' = [''/a/b/''] @ ''/a/b'' # [''/a'', ''/''] \<and>
   roots (Add (Add NewRoutes ''/a/:x'' (1::nat)) ''/a/b/:y/:z'' 2) ''/a/b/'' = None \<and>
   roots (Add (Add NewRoutes ''/a/:x'' (1::nat)) ''/a/b/:y/:z'' 2) ''/a/b''
     = Some [\<lparr>prefix = ''/a/b'',
              partNames = [\<lparr>name = ''y'', fixed = False\<rparr>, \<lparr>name = ''z'', fixed = False\<rparr>],
              function_h = 2\<rparr>] \<and>
   roots (Add (Add NewRoutes ''/a/:x'' (1::nat)) ''/a/b/:y/:z'' 2) ''/a''
     = Some [\<lparr>prefix = ''/a'', partNames = [\<lparr>name = ''x'', fixed = False\<rparr>], function_h = 1\<rparr>] \<and>
   matchRoutes ''/a/b/''
     [\<lparr>prefix = ''/a'', partNames = [\<lparr>name = ''x'', fixed = False\<rparr>], function_h = (1::nat)\<rparr>]
     = Inr (Some 1, Some [''x'' \<mapsto> ''b''], True) \<and>
   Get (Add (Add NewRoutes ''/a/:x'' (1::nat)) ''/a/b/:y/:z'' 2) ''/a/b/''
     = Some (Inr (None, None, False))"
proof -
  let ?r = "Add (Add NewRoutes ''/a/:x'' (1::nat)) ''/a/b/:y/:z'' 2"
  let ?routes = "[\<lparr>prefix = ''/a/b'',
              partNames = [\<lparr>name = ''y'', fixed = False\<rparr>, \<lparr>name = ''z'', fixed = False\<rparr>],
              function_h = 2::nat\<rparr>]"
  have c: "candidates ''/a/b/'' = [''/a/b/''] @ ''/a/b'' # [''/a'', ''/'']"
    by (simp add: candidates.simps shorten_def)
  have n: "\<forall>k' \<in> set [''/a/b/'']. roots ?r k' = None"
    by (simp add: ev)
  have s: "roots ?r ''/a/b'' = Some ?routes"
    by (simp add: ev)
  have s': "roots ?r ''/a''
     = Some [\<lparr>prefix = ''/a'', partNames = [\<lparr>name = ''x'', fixed = False\<rparr>], function_h = 1\<rparr>]"
    by (simp add: ev)
  have m: "matchRoutes ''/a/b/'' ?routes = Inr (None, None, False)"
    by (simp add: ev)
  have m': "matchRoutes ''/a/b/''
     [\<lparr>prefix = ''/a'', partNames = [\<lparr>name = ''x'', fixed = False\<rparr>], function_h = (1::nat)\<rparr>]
     = Inr (Some 1, Some [''x'' \<mapsto> ''b''], True)"
    by (simp add: ev)
  have g: "Get ?r ''/a/b/'' = Some (Inr (None, None, False))"
    using Get_first_key_decides [OF c n s] m by simp
  show ?thesis using c n s s' m' g by simp
qed

text \<open>
  C5 (as amended). \<open>Get("/")\<close> on the empty table is not-found, with no panic, and so is
  \<open>Get("")\<close>. On a table built by registration, \<open>Get("")\<close> is found exactly when the
  pattern \<open>""\<close> has been registered and \<open>Get("/")\<close> exactly when the pattern \<open>"/"\<close>
  has been; each returns the handler of the first such registration and an empty
  mapping. The two lookups read different keys of the table and need not agree.
\<close>

theorem Get_empty_and_slash:
  "Get NewRoutes ''/'' = Some (Inr (None, None, False)) \<and>
   Get NewRoutes '''' = Some (Inr (None, None, False)) \<and>
   Get (register_all regs) '''' =
     (case map_of regs '''' of
        None \<Rightarrow> Some (Inr (None, None, False))
      | Some h \<Rightarrow> Some (Inr (Some h, Some Map.empty, True))) \<and>
   Get (register_all regs) ''/'' =
     (case map_of regs ''/'' of
        None \<Rightarrow> Some (Inr (None, None, False))
      | Some h \<Rightarrow> Some (Inr (Some h, Some Map.empty, True)))"
proof -
  have a: "Get NewRoutes ''/'' = Some (Inr (None, None, False))"
    by (simp add: ev)
  have b: "Get NewRoutes '''' = Some (Inr (None, None, False))"
    by (simp add: ev)
  have c: "Get (register_all regs) '''' =
     (case map_of regs '''' of
        None \<Rightarrow> Some (Inr (None, None, False))
      | Some h \<Rightarrow> Some (Inr (Some h, Some Map.empty, True)))"
    by (rule Get_short_key [OF param_free_empty]) (simp add: shorten_short)
  have d: "Get (register_all regs) ''/'' =
     (case map_of regs ''/'' of
        None \<Rightarrow> Some (Inr (None, None, False))
      | Some h \<Rightarrow> Some (Inr (Some h, Some Map.empty, True)))"
    by (rule Get_short_key [OF param_free_slash]) (simp add: shorten_short)
  show ?thesis using a b c d by blast
qed

text \<open>
  C5 as stated fails: after registering \<open>"/"\<close> alone, \<open>Get("/")\<close> is found and
  \<open>Get("")\<close> is not.
\<close>

theorem Get_empty_differs_from_slash:
  "Get (register_all [(''/'', 0::nat)]) ''/'' = Some (Inr (Some 0, Some Map.empty, True)) \<and>
   Get (register_all [(''/'', 0::nat)]) '''' = Some (Inr (None, None, False)) \<and>
   Get (register_all [(''/'', 0::nat)]) '''' \<noteq> Get (register_all [(''/'', 0::nat)]) ''/''"
  by (simp add: register_all_def ev)

text \<open>
  C3 (as amended). For a pattern with no parameter component, \<open>Get\<close> on the pattern
  itself is found with an empty mapping in every table where it is registered (the
  handler is that of its first registration). In a table that holds this pattern alone,
  \<open>Get\<close> is found exactly on the pattern followed by any number of \<open>/\<close> (on the
  empty path alone when the pattern is empty), and not-found on every other path.
\<close>

theorem Get_literal_pattern:
  assumes "param_free pattern"
  shows "(map_of regs pattern = Some h \<longrightarrow>
            Get (register_all regs) pattern = Some (Inr (Some h, Some Map.empty, True))) \<and>
         Get (register_all [(pattern, h)]) path =
           (if (\<exists>n. path = pattern @ replicate n CHR ''/'') \<and> (pattern = [] \<longrightarrow> path = [])
            then Some (Inr (Some h, Some Map.empty, True))
            else Some (Inr (None, None, False)))"
proof -
  have a: "map_of regs pattern = Some h \<longrightarrow>
            Get (register_all regs) pattern = Some (Inr (Some h, Some Map.empty, True))"
    by (simp add: Get_registered_found [OF assms])
  have b: "Get (register_all [(pattern, h)]) path =
           (if (\<exists>n. path = pattern @ replicate n CHR ''/'') \<and> (pattern = [] \<longrightarrow> path = [])
            then Some (Inr (Some h, Some Map.empty, True))
            else Some (Inr (None, None, False)))"
    unfolding Get_register_single [OF assms] reaches_iff ..
  show ?thesis using a b by (rule conjI)
qed


text \<open>
  The amended C3 at \<open>/a\<close>: found on \<open>/a\<close> in a table that also holds \<open>/a/:id\<close>, and
  found on \<open>/a//\<close> in the table that holds \<open>/a\<close> alone.
\<close>

theorem Get_literal_pattern_witness:
  "param_free ''/a'' \<and>
   map_of [(''/a/:id'', 1), (''/a'', 2::nat)] ''/a'' = Some 2 \<and>
   Get (register_all [(''/a/:id'', 1), (''/a'', 2::nat)]) ''/a''
     = Some (Inr (Some 2, Some Map.empty, True)) \<and>
   Get (register_all [(''/a'', 2::nat)]) ''/a//'' = Some (Inr (Some 2, Some Map.empty, True))"
proof -
  have pf: "param_free ''/a''"
    by (simp add: param_free_def HasPrefix_def)
  have m: "map_of [(''/a/:id'', 1), (''/a'', 2::nat)] ''/a'' = Some 2"
    by simp
  have "''/a//'' = ''/a'' @ replicate (Suc (Suc 0)) CHR ''/''" by simp
  then have "\<exists>n. ''/a//'' = ''/a'' @ replicate n CHR ''/''"
    by (rule exI [of _ "Suc (Suc 0)"])
  moreover have "''/a'' = [] \<longrightarrow> ''/a//'' = []" by simp
  ultimately have c: "(\<exists>n. ''/a//'' = ''/a'' @ replicate n CHR ''/'') \<and> (''/a'' = [] \<longrightarrow> ''/a//'' = [])"
    by (rule conjI)
  note th = Get_literal_pattern [OF pf, of "[(''/a/:id'', 1), (''/a'', 2::nat)]" 2 "''/a//''"]
  have g1: "Get (register_all [(''/a/:id'', 1), (''/a'', 2::nat)]) ''/a''
     = Some (Inr (Some 2, Some Map.empty, True))"
    using th [THEN conjunct1] m by (rule mp)
  have "Get (register_all [(''/a'', 2::nat)]) ''/a//'' =
     (if (\<exists>n. ''/a//'' = ''/a'' @ replicate n CHR ''/'') \<and> (''/a'' = [] \<longrightarrow> ''/a//'' = [])
      then Some (Inr (Some 2, Some Map.empty, True))
      else Some (Inr (None, None, False)))"
    using th by (rule conjunct2)
  also have "\<dots> = Some (Inr (Some 2, Some Map.empty, True))"
    using c by (rule if_P)
  finally have g2: "Get (register_all [(''/a'', 2::nat)]) ''/a//''
     = Some (Inr (Some 2, Some Map.empty, True))" .
  from pf m g1 g2 show ?thesis by (intro conjI)
qed

text \<open>
  C3 as stated fails: with \<open>/a\<close> alone registered, the other path \<open>/a/\<close> is found.
\<close>

theorem trailing_slash_also_matches:
  "param_free ''/a'' \<and> ''/a/'' \<noteq> ''/a'' \<and>
   Get (register_all [(''/a'', 0::nat)]) ''/a/'' = Some (Inr (Some 0, Some Map.empty, True))"
  by (simp add: param_free_def register_all_def ev)

text \<open>
  C9 (as amended). A route registered from a pattern that begins with \<open>:\<close> or with
  \<open>/:\<close> (its first component, after at most one leading slash, is a parameter) is
  appended to the entry list of the empty key, with a non-empty segment list. No lookup
  of a non-empty path reads the empty key, so registering such a route changes the result
  of no such lookup; \<open>Get("")\<close> is the one lookup that reads the entries under the empty
  key.
\<close>

theorem leading_param_under_empty_key:
  assumes "HasPrefix pattern '':'' \<or> HasPrefix pattern ''/:''"
  shows "(\<exists>rs ps. roots (Add r pattern f) [] =
              Some (rs @ [\<lparr>prefix = [], partNames = ps, function_h = f\<rparr>]) \<and> ps \<noteq> []) \<and>
         (\<forall>path. path \<noteq> [] \<longrightarrow> Get (Add r pattern f) path = Get r path) \<and>
         (\<exists>rs. roots (Add r pattern f) [] = Some rs \<and>
               Get (Add r pattern f) [] = Some (matchRoutes [] rs))"
proof -
  have sp: "staticPrefix pattern = []"
    using assms staticPrefix_colon staticPrefix_slash_colon by blast
  have sg: "segments pattern \<noteq> []"
    using assms segments_colon segments_slash_colon by blast
  let ?old = "case roots r [] of None \<Rightarrow> [] | Some rs \<Rightarrow> rs"
  have rt: "roots (Add r pattern f) [] =
      Some (?old @ [\<lparr>prefix = [], partNames = segments pattern, function_h = f\<rparr>])"
    by (simp add: roots_Add sp route_of_def)
  have a: "\<exists>rs ps. roots (Add r pattern f) [] =
              Some (rs @ [\<lparr>prefix = [], partNames = ps, function_h = f\<rparr>]) \<and> ps \<noteq> []"
    by (rule exI [of _ ?old], rule exI [of _ "segments pattern"]) (simp add: rt sg)
  have b: "\<forall>path. path \<noteq> [] \<longrightarrow> Get (Add r pattern f) path = Get r path"
    by (simp add: Get_Add_empty_key [OF sp])
  have "Get (Add r pattern f) [] =
      Some (matchRoutes [] (?old @ [\<lparr>prefix = [], partNames = segments pattern, function_h = f\<rparr>]))"
    using rt by (simp add: Get_def Get_loop_unfold del: matchRoutes.simps)
  then have c: "\<exists>rs. roots (Add r pattern f) [] = Some rs \<and>
               Get (Add r pattern f) [] = Some (matchRoutes [] rs)"
    using rt
    by (intro exI [of _ "?old @ [\<lparr>prefix = [], partNames = segments pattern, function_h = f\<rparr>]"] conjI)
  show ?thesis using a b c by (intro conjI)
qed


text \<open>
  The amended C9 at the pattern \<open>/:id\<close> in a new table: the route is under the empty key
  and \<open>Get("/5")\<close> does not find it.
\<close>

theorem leading_param_under_empty_key_witness:
  "(HasPrefix ''/:id'' '':'' \<or> HasPrefix ''/:id'' ''/:'') \<and>
   roots (Add NewRoutes ''/:id'' (0::nat)) [] =
     Some [\<lparr>prefix = [], partNames = [\<lparr>name = ''id'', fixed = False\<rparr>], function_h = 0\<rparr>] \<and>
   Get (Add NewRoutes ''/:id'' (0::nat)) ''/5'' = Some (Inr (None, None, False)) \<and>
   Get (Add NewRoutes ''/:id'' (0::nat)) [] = Some (Inr (None, None, False))"
proof -
  have h: "HasPrefix ''/:id'' '':'' \<or> HasPrefix ''/:id'' ''/:''"
    by (simp add: HasPrefix_def)
  note th = leading_param_under_empty_key [OF h, of "NewRoutes :: nat Routes" 0]
  have "Get (Add NewRoutes ''/:id'' (0::nat)) ''/5'' = Get NewRoutes ''/5''"
    using th [THEN conjunct2, THEN conjunct1, THEN spec, of "''/5''"] by simp
  also have "\<dots> = Some (Inr (None, None, False))"
    by (simp add: ev)
  finally have g: "Get (Add NewRoutes ''/:id'' (0::nat)) ''/5'' = Some (Inr (None, None, False))" .
  have r: "roots (Add NewRoutes ''/:id'' (0::nat)) [] =
     Some [\<lparr>prefix = [], partNames = [\<lparr>name = ''id'', fixed = False\<rparr>], function_h = 0\<rparr>]"
    by (simp add: ev)
  have e: "Get (Add NewRoutes ''/:id'' (0::nat)) [] = Some (Inr (None, None, False))"
    by (simp add: ev)
  from h r g e show ?thesis by (intro conjI)
qed

text \<open>
  C9 as stated fails: the first non-empty component of \<open>//:id\<close> is a parameter, yet the
  route is stored under the key \<open>/\<close>, not the empty key, and the non-empty path \<open>/5\<close>
  matches it.
\<close>

theorem double_slash_param_is_reachable:
  "Split ''//:id'' CHR ''/'' = ['''', '''', '':id''] \<and>
   roots (register_all [(''//:id'', 0::nat)]) [] = None \<and>
   Get (register_all [(''//:id'', 0::nat)]) ''/5''
     = Some (Inr (Some 0, Some [''id'' \<mapsto> ''5''], True))"
  by (simp add: register_all_def ev)

text \<open>
  C1 fails on the code: with \<open>/users/:id\<close> registered, the path \<open>/users//42\<close> has the
  cleaned list \<open>["42"]\<close>, which passes the length guard, but the loop reads the list
  before cleaning, \<open>["", "42"]\<close>, and binds \<open>id\<close> to the empty string.
\<close>

theorem double_slash_binds_empty:
  "cleanArray (Split (TrimPrefix (TrimPrefix ''/users//42'' ''/users'') ''/'') CHR ''/'')
     = [''42''] \<and>
   Get (register_all [(''/users/:id'', 0::nat)]) ''/users//42''
     = Some (Inr (Some 0, Some [''id'' \<mapsto> ''''], True))"
  by (simp add: register_all_def ev)

text \<open>
  \<open>Get\<close> once more, as a step on the receiver: the table is threaded through every
  iteration of the loop and handed back with the result, so a write to it anywhere in
  the loop would show in the state returned. The source has none: \<open>r.roots[remaining]\<close>
  is a read, \<open>matchRoutes\<close> ranges over the entry list by value and fills a map of its
  own.
\<close>

partial_function (option) Get_loop_st ::
  "string \<Rightarrow> string \<Rightarrow> 'h Routes \<Rightarrow> ((error + 'h result) \<times> 'h Routes) option" where
  "Get_loop_st path remaining r =
     (case roots r remaining of
        Some routes \<Rightarrow> Some (matchRoutes path routes, r)
      | None \<Rightarrow>
          if length remaining < 2 then Some (Inr (None, None, False), r)
          else if LastIndex remaining CHR ''/'' < 0 then Some (Inr (None, None, False), r)
          else if 0 < LastIndex remaining CHR ''/''
               then Get_loop_st path (take (nat (LastIndex remaining CHR ''/'')) remaining) r
               else Get_loop_st path ''/'' r)"

definition Get_call :: "string \<Rightarrow> 'h Routes \<Rightarrow> ((error + 'h result) \<times> 'h Routes) option" where
  "Get_call path r = Get_loop_st path path r"

text \<open>Two calls in a row, the second on the table the first handed back.\<close>

definition Get_twice ::
  "string \<Rightarrow> 'h Routes \<Rightarrow> ((error + 'h result) \<times> (error + 'h result) \<times> 'h Routes) option" where
  "Get_twice path r =
     (case Get_call path r of
        None \<Rightarrow> None
      | Some (res1, r1) \<Rightarrow>
          (case Get_call path r1 of
             None \<Rightarrow> None
           | Some (res2, r2) \<Rightarrow> Some (res1, res2, r2)))"

lemma Get_loop_st_unfold:
  "Get_loop_st path remaining r =
     (case roots r remaining of
        Some routes \<Rightarrow> Some (matchRoutes path routes, r)
      | None \<Rightarrow>
          (case shorten remaining of
             None \<Rightarrow> Some (Inr (None, None, False), r)
           | Some remaining' \<Rightarrow> Get_loop_st path remaining' r))"
  by (subst Get_loop_st.simps) (simp add: shorten_def split: option.splits)

lemma Get_loop_st_eq:
  "Get_loop_st path remaining r = map_option (\<lambda>res. (res, r)) (Get_loop r path remaining)"
proof (induction remaining rule: candidates.induct)
  case (1 remaining)
  show ?case
  proof (cases "roots r remaining")
    case (Some routes)
    then show ?thesis
      by (subst Get_loop_st_unfold, subst Get_loop_unfold) simp
  next
    case None
    show ?thesis
    proof (cases "shorten remaining")
      case n: None
      then show ?thesis using None
        by (subst Get_loop_st_unfold, subst Get_loop_unfold) simp
    next
      case (Some r')
      then show ?thesis using None "1.IH" [OF Some]
        by (subst Get_loop_st_unfold, subst Get_loop_unfold) simp
    qed
  qed
qed

lemma Get_call_eq: "Get_call path r = map_option (\<lambda>res. (res, r)) (Get r path)"
  by (simp add: Get_call_def Get_def Get_loop_st_eq)

text \<open>
  C8. \<open>Get\<close> is a function of the table and the path: the call hands the table back as
  it was, its result is the one the pure model \<open>Get\<close> gives, and a second call on the
  same table and path returns what the first returned.
\<close>

theorem Get_leaves_table:
  "\<exists>res. Get_call path r = Some (res, r) \<and> Get r path = Some res \<and>
         Get_twice path r = Some (res, res, r)"
proof -
  obtain res where g: "Get r path = Some res"
    using Get_loop_returns [of r path path] by (auto simp: Get_def)
  then have c: "Get_call path r = Some (res, r)"
    by (simp add: Get_call_eq)
  then have t: "Get_twice path r = Some (res, res, r)"
    by (simp add: Get_twice_def)
  from c g t show ?thesis by (intro exI [of _ res] conjI)
qed

section \<open>The router around the tables\<close>

text \<open>
  \<open>Router\<close> keeps one table for each method. \<open>NewRouter\<close> allocates seven separate tables,
  so the map holds them by value. The function \<open>chain\<close>, which builds the handler from the
  middlewares, is not part of the sources at hand and is a parameter of \<open>buildHandler\<close>
  and \<open>Register\<close>.
\<close>

record Param =
  path :: string
  param :: "(string \<rightharpoonup> string) option"

record ('h, 'c, 'w) Router =
  handler :: "'c option"
  middlewares :: "'w list"
  params :: "Param list"
  routes :: "string \<rightharpoonup> 'h Routes"

definition methods :: "string set" where
  "methods = {''GET'', ''POST'', ''PUT'', ''DELETE'', ''PATCH'', ''OPTIONS'', ''HEAD''}"

definition NewRouter :: "('h, 'c, 'w) Router" where
  "NewRouter =
     \<lparr>handler = None, middlewares = [], params = [],
      routes = [''GET'' \<mapsto> NewRoutes, ''POST'' \<mapsto> NewRoutes, ''PUT'' \<mapsto> NewRoutes,
                ''DELETE'' \<mapsto> NewRoutes, ''PATCH'' \<mapsto> NewRoutes,
                ''OPTIONS'' \<mapsto> NewRoutes, ''HEAD'' \<mapsto> NewRoutes]\<rparr>"

definition buildHandler :: "('w list \<Rightarrow> 'c) \<Rightarrow> ('h, 'c, 'w) Router \<Rightarrow> ('h, 'c, 'w) Router" where
  "buildHandler chain r = r\<lparr>handler := Some (chain (middlewares r))\<rparr>"

definition Register ::
  "('w list \<Rightarrow> 'c) \<Rightarrow> ('h, 'c, 'w) Router \<Rightarrow> string \<Rightarrow> string \<Rightarrow> 'h
     \<Rightarrow> string option \<times> ('h, 'c, 'w) Router" where
  "Register chain r method pattern f =
     (let r' = (if handler r = None then buildHandler chain r else r) in
      case routes r' method of
        None \<Rightarrow> (Some (''method '' @ method @ '' not valid''), r')
      | Some rts \<Rightarrow> (None, r'\<lparr>routes := (routes r')(method \<mapsto> Add rts pattern f)\<rparr>))"

text \<open>
  The first statements of \<open>ServeHTTP\<close>: the lookup
  \<open>r.routes[req.Method].Get(req.URL.Path)\<close> and the append to \<open>r.params\<close>. A method that is
  no key of \<open>r.routes\<close> yields the nil \<open>*Routes\<close>, and \<open>Get\<close> on it reads \<open>r.roots\<close>
  through the nil pointer: a panic. \<open>Register\<close> tests \<open>ok\<close> at the same map read;
  \<open>ServeHTTP\<close> does not.
\<close>

definition ServeHTTP_lookup ::
  "('h, 'c, 'w) Router \<Rightarrow> string \<Rightarrow> string
     \<Rightarrow> (error + 'h result \<times> ('h, 'c, 'w) Router) option" where
  "ServeHTTP_lookup r method url_path =
     (case routes r method of
        None \<Rightarrow> Some (Inl NilDereference)
      | Some rts \<Rightarrow>
          (case Get rts url_path of
             None \<Rightarrow> None
           | Some (Inl e) \<Rightarrow> Some (Inl e)
           | Some (Inr (f, pram, match)) \<Rightarrow>
               Some (Inr ((f, pram, match),
                          r\<lparr>params := params r @ [\<lparr>path = url_path, param = pram\<rparr>]\<rparr>))))"

lemma dom_NewRouter: "dom (routes NewRouter) = methods"
  by (auto simp: NewRouter_def methods_def split: if_splits)

lemma Register_dom: "dom (routes (snd (Register chain r method pattern f))) = dom (routes r)"
  by (auto simp: Register_def buildHandler_def Let_def split: option.splits if_splits)

lemma Register_error_iff:
  "dom (routes r) = methods \<Longrightarrow>
     (fst (Register chain r method pattern f) \<noteq> None) = (method \<notin> methods)"
  by (auto simp: Register_def buildHandler_def Let_def split: option.splits if_splits)

lemma Register_error_unchanged:
  "fst (Register chain r method pattern f) = Some e \<Longrightarrow>
     routes (snd (Register chain r method pattern f)) = routes r"
  by (auto simp: Register_def buildHandler_def Let_def split: option.splits if_splits)

lemma ServeHTTP_lookup_routes:
  "ServeHTTP_lookup r method url_path = Some (Inr (res, r')) \<Longrightarrow> routes r' = routes r"
  by (auto simp: ServeHTTP_lookup_def split: option.splits sum.splits)

text \<open>
  C4 fails on the code: for a request whose method is none of the seven, the table that
  \<open>ServeHTTP\<close> looks up is nil and the lookup panics. (The part of C4 about
  \<open>Register\<close> holds: \<open>Register_error_iff\<close>, \<open>Register_error_unchanged\<close>,
  \<open>Register_dom\<close>.)
\<close>

theorem unknown_method_nil_dereference:
  "ServeHTTP_lookup (NewRouter :: (nat, nat, nat) Router) ''TRACE'' ''/''
     = Some (Inl NilDereference)"
  by (simp add: ServeHTTP_lookup_def NewRouter_def)

end
